theory Spec2Isabelle
  imports Main
begin

section \<open>CSV column type inference (csv\_type\_infer.c)\<close>

text \<open>
  A shallow embedding of \<^verbatim>\<open>src/csv_type_infer.c\<close>: the two literal classifiers
  \<^verbatim>\<open>is_integer\<close> and \<^verbatim>\<open>is_real\<close>, the in-place record splitter
  \<^verbatim>\<open>split_csv_line\<close>, and the per-column type fold of \<^verbatim>\<open>main\<close>.

  A C string is modelled by a list of bytes that is read up to its first NUL, or up to
  its end when it holds none: reading at the end of the list reads the terminator, and
  a NUL byte inside a list is the terminator it would be in memory.
\<close>

subsection \<open>The column type\<close>

text \<open>\<^verbatim>\<open>typedef enum { TYPE_UNKNOWN=0, TYPE_INTEGER, TYPE_REAL, TYPE_TEXT } ColType;\<close>\<close>

datatype ColType = TYPE_UNKNOWN | TYPE_INTEGER | TYPE_REAL | TYPE_TEXT

text \<open>The numeric value of each enumerator, which is also its place in the order
  Unknown < Integer < Real < Text.\<close>

fun rank :: "ColType \<Rightarrow> nat" where
  "rank TYPE_UNKNOWN = 0"
| "rank TYPE_INTEGER = 1"
| "rank TYPE_REAL = 2"
| "rank TYPE_TEXT = 3"

subsection \<open>Characters\<close>

text \<open>\<^verbatim>\<open>isspace\<close> and \<^verbatim>\<open>isdigit\<close> of \<^verbatim>\<open><ctype.h>\<close> in the "C" locale (the program
  never calls \<^verbatim>\<open>setlocale\<close>): space, and the control characters HT, LF, VT, FF, CR;
  the ten decimal digits.\<close>

definition NUL :: char where
  "NUL = CHR 0x00"

definition DQUOTE :: char where
  "DQUOTE = CHR 0x22"

definition isspace :: "char \<Rightarrow> bool" where
  "isspace c = (c \<in> set [CHR 0x20, CHR 0x09, CHR 0x0A, CHR 0x0B, CHR 0x0C, CHR 0x0D])"

definition isdigit :: "char \<Rightarrow> bool" where
  "isdigit c = (c \<in> set ''0123456789'')"

text \<open>\<^verbatim>\<open>*p\<close> for a read-only scan pointer \<open>p\<close>, modelled by the rest of the string.\<close>

fun cur :: "string \<Rightarrow> char" where
  "cur [] = NUL"
| "cur (c # p) = c"

subsection \<open>Literal classifiers\<close>

text \<open>\<^verbatim>\<open>while(isspace((unsigned char)*p)) p++;\<close>\<close>

fun skip_space :: "string \<Rightarrow> string" where
  "skip_space [] = []"
| "skip_space (c # p) = (if isspace c then skip_space p else c # p)"

text \<open>\<^verbatim>\<open>if(*p=='+'||*p=='-') p++;\<close>\<close>

definition skip_sign :: "string \<Rightarrow> string" where
  "skip_sign p = (if cur p = CHR ''+'' \<or> cur p = CHR ''-'' then tl p else p)"

text \<open>\<^verbatim>\<open>while(isdigit((unsigned char)*p)) { dig=1; p++; }\<close>, returning the flag and the
  pointer.\<close>

fun scan_digits :: "bool \<Rightarrow> string \<Rightarrow> bool \<times> string" where
  "scan_digits dig [] = (dig, [])"
| "scan_digits dig (c # p) = (if isdigit c then scan_digits True p else (dig, c # p))"

definition is_integer :: "string \<Rightarrow> bool" where
  "is_integer s =
     (let p = skip_space s;
          p = skip_sign p;
          (dig, p) = scan_digits False p;
          p = skip_space p
      in dig \<and> cur p = NUL)"

text \<open>The exponent part of \<^verbatim>\<open>is_real\<close> (lines 46 to 54): \<open>None\<close> is the early
  \<^verbatim>\<open>return 0\<close>, \<open>Some p\<close> the pointer after the exponent.\<close>

definition scan_exponent :: "string \<Rightarrow> string option" where
  "scan_exponent p =
     (if cur p = CHR ''e'' \<or> cur p = CHR ''E'' then
        (let p = tl p;
             p = skip_sign p;
             (expd, p) = scan_digits False p
         in if \<not> expd then None else Some p)
      else Some p)"

definition is_real :: "string \<Rightarrow> bool" where
  "is_real s =
     (let p = skip_space s;
          p = skip_sign p;
          (dig, p) = scan_digits False p;
          (dig, p) = (if cur p = CHR ''.'' then scan_digits dig (tl p) else (dig, p))
      in if \<not> dig then False
         else (case scan_exponent p of
                 None \<Rightarrow> False
               | Some p \<Rightarrow> cur (skip_space p) = NUL))"

subsection \<open>The per-cell transition\<close>

text \<open>The body of the column loop of \<^verbatim>\<open>main\<close> (lines 192 to 203) for one column:
  the state \<^verbatim>\<open>types[i]\<close> before, the cell text, the state after.\<close>

definition observe :: "ColType \<Rightarrow> string \<Rightarrow> ColType" where
  "observe t cell =
     (if cur cell = NUL then t
      else if t = TYPE_TEXT then t
      else if is_integer cell then (if t = TYPE_UNKNOWN then TYPE_INTEGER else t)
      else if is_real cell then (if t = TYPE_UNKNOWN \<or> t = TYPE_INTEGER then TYPE_REAL else t)
      else TYPE_TEXT)"

subsection \<open>The line buffer\<close>

text \<open>\<^verbatim>\<open>split_csv_line\<close> rewrites the line buffer in place and returns pointers into
  it, so the buffer is modelled as a byte array and a pointer as an index. Index
  \<open>length buf\<close> is a terminating NUL, which the function never overwrites when the
  delimiter is not NUL itself.\<close>

definition peek :: "string \<Rightarrow> nat \<Rightarrow> char" where
  "peek buf i = (if i < length buf then buf ! i else NUL)"

text \<open>The C string that starts at index \<open>i\<close> of the buffer: what a caller reads
  through \<^verbatim>\<open>cells[k]\<close>.\<close>

definition cstr_at :: "string \<Rightarrow> nat \<Rightarrow> string" where
  "cstr_at buf i = takeWhile (\<lambda>c. c \<noteq> NUL) (drop i buf)"

subsection \<open>The record splitter\<close>

text \<open>The \<^verbatim>\<open>for(;;)\<close> loop of a quoted field (lines 78 to 84): read pointer \<open>p\<close>,
  write pointer \<open>w\<close>; the result is the buffer and both pointers at the
  \<^verbatim>\<open>break\<close>.\<close>

function quoted_loop :: "string \<Rightarrow> nat \<Rightarrow> nat \<Rightarrow> string \<times> nat \<times> nat" where
  "quoted_loop buf p w =
     (if peek buf p = DQUOTE then
        (if peek buf (p + 1) = DQUOTE then quoted_loop (buf[w := DQUOTE]) (p + 2) (w + 1)
         else (buf, p + 1, w))
      else if peek buf p = NUL then (buf, p, w)
      else quoted_loop (buf[w := peek buf p]) (p + 1) (w + 1))"
  by pat_completeness auto
termination
  by (relation "measure (\<lambda>(buf, p, w). length buf - p)")
     (auto simp: peek_def NUL_def DQUOTE_def split: if_splits)

text \<open>\<^verbatim>\<open>while(*p && *p!=delim) p++;\<close>\<close>

function skip_to_delim :: "string \<Rightarrow> char \<Rightarrow> nat \<Rightarrow> nat" where
  "skip_to_delim buf delim p =
     (if peek buf p \<noteq> NUL \<and> peek buf p \<noteq> delim then skip_to_delim buf delim (p + 1) else p)"
  by pat_completeness auto
termination
  by (relation "measure (\<lambda>(buf, delim, p). length buf - p)")
     (auto simp: peek_def split: if_splits)

text \<open>The outer loop (lines 73 to 106). \<open>cells\<close> is the array \<^verbatim>\<open>cells[0..count-1]\<close>,
  so \<^verbatim>\<open>count\<close> is its length.\<close>

function split_loop :: "string \<Rightarrow> nat \<Rightarrow> char \<Rightarrow> nat \<Rightarrow> nat list \<Rightarrow> string \<times> nat list" where
  "split_loop buf max_cells delim p cells =
     (if peek buf p \<noteq> NUL \<and> length cells < max_cells then
        (let start = p in
         if peek buf p = DQUOTE then
           (let (buf, p, w) = quoted_loop buf (p + 1) start;
                buf = buf[w := NUL];
                p = skip_to_delim buf delim p;
                cells = cells @ [start + 1];
                p = (if peek buf p = delim then p + 1 else p)
            in split_loop buf max_cells delim p cells)
         else
           (let p = skip_to_delim buf delim p in
            if peek buf p = delim then
              split_loop (buf[p := NUL]) max_cells delim (p + 1) (cells @ [start])
            else
              split_loop buf max_cells delim p (cells @ [start])))
      else (buf, cells))"
  by pat_completeness auto
termination
  by (relation "measure (\<lambda>(buf, max_cells, delim, p, cells). max_cells - length cells)") auto

definition split_csv_line :: "string \<Rightarrow> nat \<Rightarrow> char \<Rightarrow> string \<times> nat list" where
  "split_csv_line line max_cells delim = split_loop line max_cells delim 0 []"

text \<open>The fields a caller sees after the call: the C strings at the returned pointers,
  read from the buffer as the call left it.\<close>

definition split_fields :: "string \<Rightarrow> nat \<Rightarrow> char \<Rightarrow> string list" where
  "split_fields line max_cells delim =
     (let (buf, cells) = split_csv_line line max_cells delim in map (cstr_at buf) cells)"

subsection \<open>The driver\<close>

text \<open>\<^verbatim>\<open>#define MAX_COLS 8192\<close>\<close>

definition MAX_COLS :: nat where
  "MAX_COLS = 8192"

text \<open>\<^verbatim>\<open>strlen\<close>: the number of bytes before the first NUL.\<close>

definition strlen :: "string \<Rightarrow> nat" where
  "strlen s = length (takeWhile (\<lambda>c. c \<noteq> NUL) s)"

text \<open>\<^verbatim>\<open>while(n && (s[n-1]=='\n' || s[n-1]=='\r')) s[--n]=0;\<close>\<close>

function chomp_loop :: "string \<Rightarrow> nat \<Rightarrow> string" where
  "chomp_loop s n =
     (if n \<noteq> 0 \<and> (peek s (n - 1) = CHR 0x0A \<or> peek s (n - 1) = CHR 0x0D)
      then chomp_loop (s[n - 1 := NUL]) (n - 1) else s)"
  by pat_completeness auto
termination
  by (relation "measure (\<lambda>(s, n). n)") auto

definition chomp :: "string \<Rightarrow> string" where
  "chomp s = chomp_loop s (strlen s)"

text \<open>\<^verbatim>\<open>strip_bom\<close>: the \<^verbatim>\<open>memmove\<close> leaves the C string that started three bytes
  further on.\<close>

definition strip_bom :: "string \<Rightarrow> string" where
  "strip_bom s =
     (if peek s 0 = CHR 0xEF \<and> peek s 1 = CHR 0xBB \<and> peek s 2 = CHR 0xBF then drop 3 s else s)"

text \<open>\<^verbatim>\<open>for(int i=c;i<ncols;i++) cells[i]="";\<close> where \<open>c\<close> is the number of cells the
  splitter returned: the cells of a short row are followed by empty strings up to
  \<open>ncols\<close>; a longer row is left as it is, and its cells from \<open>ncols\<close> on are never
  read.\<close>

definition pad_cells :: "nat \<Rightarrow> string list \<Rightarrow> string list" where
  "pad_cells ncols cells = cells @ replicate (ncols - length cells) []"

text \<open>The column loop of one data row (lines 191 to 204), from column \<open>i\<close> on.\<close>

function observe_row :: "nat \<Rightarrow> nat \<Rightarrow> ColType list \<Rightarrow> string list \<Rightarrow> ColType list" where
  "observe_row i ncols types cells =
     (if i < ncols
      then observe_row (i + 1) ncols (types[i := observe (types ! i) (cells ! i)]) cells
      else types)"
  by pat_completeness auto
termination
  by (relation "measure (\<lambda>(i, ncols, types, cells). ncols - i)") auto

text \<open>The cells of one data line as the column loop reads them (lines 186 to 189).\<close>

definition row_cells :: "nat \<Rightarrow> string \<Rightarrow> string list" where
  "row_cells ncols line = pad_cells ncols (split_fields (chomp line) MAX_COLS (CHR '',''))"

text \<open>The \<^verbatim>\<open>while(fgets(...))\<close> loop over the data lines (lines 185 to 205); each
  element of the list is one buffer as \<^verbatim>\<open>fgets\<close> filled it.\<close>

fun scan_rows :: "nat \<Rightarrow> ColType list \<Rightarrow> string list \<Rightarrow> ColType list" where
  "scan_rows ncols types [] = types"
| "scan_rows ncols types (line # rest) =
     scan_rows ncols (observe_row 0 ncols types (row_cells ncols line)) rest"

text \<open>\<^verbatim>\<open>for(int i=0;i<ncols;i++) if(types[i]==TYPE_UNKNOWN) types[i]=TYPE_TEXT;\<close>\<close>

function finalize :: "nat \<Rightarrow> nat \<Rightarrow> ColType list \<Rightarrow> ColType list" where
  "finalize i ncols types =
     (if i < ncols
      then finalize (i + 1) ncols (if types ! i = TYPE_UNKNOWN then types[i := TYPE_TEXT] else types)
      else types)"
  by pat_completeness auto
termination
  by (relation "measure (\<lambda>(i, ncols, types). ncols - i)") auto

text \<open>The number of columns that the header line fixes (lines 171 to 174).\<close>

definition header_ncols :: "string \<Rightarrow> nat" where
  "header_ncols hdr = length (snd (split_csv_line (chomp (strip_bom hdr)) MAX_COLS (CHR '','')))"

text \<open>The types that \<^verbatim>\<open>main\<close> hands to \<^verbatim>\<open>print_json\<close>, from the lines of the file in
  the order \<^verbatim>\<open>fgets\<close> delivers them. A file without a header line, or with a header of
  no columns, has no columns.\<close>

definition main_types :: "string list \<Rightarrow> ColType list" where
  "main_types lines =
     (case lines of
        [] \<Rightarrow> []
      | hdr # rows \<Rightarrow>
          (let ncols = header_ncols hdr in
           if ncols \<le> 0 then []
           else finalize 0 ncols (scan_rows ncols (replicate ncols TYPE_UNKNOWN) rows)))"

text \<open>The values that column \<open>i\<close> observes, one per data line.\<close>

definition column_values :: "nat \<Rightarrow> string list \<Rightarrow> nat \<Rightarrow> string list" where
  "column_values ncols rows i = map (\<lambda>line. row_cells ncols line ! i) rows"

text \<open>What the final pass does to one state.\<close>

definition settle :: "ColType \<Rightarrow> ColType" where
  "settle t = (if t = TYPE_UNKNOWN then TYPE_TEXT else t)"

subsection \<open>Splitting on a delimiter\<close>

text \<open>Splitting a string on every occurrence of a delimiter: the substrings between
  consecutive delimiters, empty ones included, so that a string with \<open>n\<close> delimiters
  has \<open>n + 1\<close> substrings.\<close>

function split_on :: "char \<Rightarrow> string \<Rightarrow> string list" where
  "split_on d s =
     (case dropWhile (\<lambda>c. c \<noteq> d) s of
        [] \<Rightarrow> [takeWhile (\<lambda>c. c \<noteq> d) s]
      | _ # rest \<Rightarrow> takeWhile (\<lambda>c. c \<noteq> d) s # split_on d rest)"
  by pat_completeness auto
termination
proof (relation "measure (\<lambda>(d, s). length s)")
  show "wf (measure (\<lambda>(d, s). length s))" by simp
next
  fix d :: char and s x21 x22
  assume "dropWhile (\<lambda>c. c \<noteq> d) s = x21 # x22"
  then have "length (x21 # x22) \<le> length s"
    using length_dropWhile_le [of "\<lambda>c. c \<noteq> d" s] by simp
  then show "((d, x22), d, s) \<in> measure (\<lambda>(d, s). length s)" by simp
qed

text \<open>The same list without its last substring when that one is empty.\<close>

definition drop_trailing_empty :: "string list \<Rightarrow> string list" where
  "drop_trailing_empty fs = (if fs \<noteq> [] \<and> last fs = [] then butlast fs else fs)"

text \<open>The loop equations are unfolded by hand, one iteration at a time.\<close>

declare quoted_loop.simps [simp del] skip_to_delim.simps [simp del]
  split_loop.simps [simp del] chomp_loop.simps [simp del]
  observe_row.simps [simp del] finalize.simps [simp del] split_on.simps [simp del]


section \<open>Properties\<close>

lemma cur_skip_space_NUL: "cur (skip_space p) = NUL \<Longrightarrow> cur p = NUL \<or> isspace (cur p)"
  by (cases p) (auto split: if_splits)

lemma is_integer_imp_is_real:
  assumes "is_integer s"
  shows "is_real s"
proof -
  obtain dig p where sd: "scan_digits False (skip_sign (skip_space s)) = (dig, p)"
    by (cases "scan_digits False (skip_sign (skip_space s))")
  from assms sd have dig: "dig" and e: "cur (skip_space p) = NUL"
    by (auto simp: is_integer_def)
  from e have "cur p = NUL \<or> isspace (cur p)"
    by (rule cur_skip_space_NUL)
  then have "cur p \<noteq> CHR ''.''" "cur p \<noteq> CHR ''e''" "cur p \<noteq> CHR ''E''"
    by (auto simp: NUL_def isspace_def)
  then show ?thesis
    using sd dig e by (simp add: is_real_def scan_exponent_def)
qed

lemma is_integer_nonempty: "is_integer s \<Longrightarrow> cur s \<noteq> NUL"
  unfolding is_integer_def Let_def
  by (cases s) (auto split: prod.splits if_splits simp: isspace_def isdigit_def NUL_def skip_sign_def)

lemma observe_empty: "observe t [] = t"
  by (simp add: observe_def)

lemma rank_observe: "rank t \<le> rank (observe t v)"
  by (cases t) (auto simp: observe_def)

lemma rank_foldl_observe: "rank t \<le> rank (foldl observe t vs)"
proof (induction vs arbitrary: t)
  case Nil show ?case by simp
next
  case (Cons v vs)
  have "rank t \<le> rank (observe t v)" by (rule rank_observe)
  also have "\<dots> \<le> rank (foldl observe (observe t v) vs)" by (rule Cons.IH)
  finally show ?case by simp
qed

lemma foldl_observe_filter:
  "foldl observe t vs = foldl observe t (filter (\<lambda>v. v \<noteq> []) vs)"
  by (induction vs arbitrary: t) (auto simp: observe_empty)

lemma observe_row_length: "length (observe_row i ncols types cells) = length types"
  by (induction i ncols types cells rule: observe_row.induct)
     (subst observe_row.simps, simp)

lemma observe_row_nth:
  "ncols \<le> length types \<Longrightarrow>
   observe_row j ncols types cells ! i =
     (if j \<le> i \<and> i < ncols then observe (types ! i) (cells ! i) else types ! i)"
proof (induction j ncols types cells rule: observe_row.induct)
  case (1 j ncols types cells)
  show ?case
  proof (cases "j < ncols")
    case False
    then show ?thesis by (subst observe_row.simps) auto
  next
    case True
    have "observe_row j ncols types cells ! i =
          observe_row (j + 1) ncols (types[j := observe (types ! j) (cells ! j)]) cells ! i"
      using True by (subst observe_row.simps) simp
    also have "\<dots> = (if j + 1 \<le> i \<and> i < ncols
        then observe (types[j := observe (types ! j) (cells ! j)] ! i) (cells ! i)
        else types[j := observe (types ! j) (cells ! j)] ! i)"
      using "1.IH"[OF True] "1.prems" by simp
    finally show ?thesis using True "1.prems" by (auto simp: nth_list_update)
  qed
qed

lemma scan_rows_length: "length (scan_rows ncols types rows) = length types"
  by (induction rows arbitrary: types) (simp_all add: observe_row_length)

lemma scan_rows_nth:
  "ncols \<le> length types \<Longrightarrow> i < ncols \<Longrightarrow>
   scan_rows ncols types rows ! i = foldl observe (types ! i) (column_values ncols rows i)"
proof (induction rows arbitrary: types)
  case Nil
  show ?case by (simp add: column_values_def)
next
  case (Cons line rows)
  let ?types' = "observe_row 0 ncols types (row_cells ncols line)"
  have len: "ncols \<le> length ?types'"
    using Cons.prems by (simp add: observe_row_length)
  have step: "?types' ! i = observe (types ! i) (row_cells ncols line ! i)"
    using Cons.prems by (simp add: observe_row_nth)
  show ?case
    using Cons.IH[OF len Cons.prems(2)] step by (simp add: column_values_def)
qed

lemma finalize_length: "length (finalize i ncols types) = length types"
  by (induction i ncols types rule: finalize.induct)
     (subst finalize.simps, simp)

lemma finalize_nth:
  "ncols \<le> length types \<Longrightarrow>
   finalize j ncols types ! i = (if j \<le> i \<and> i < ncols then settle (types ! i) else types ! i)"
proof (induction j ncols types rule: finalize.induct)
  case (1 j ncols types)
  show ?case
  proof (cases "j < ncols")
    case False
    then show ?thesis by (subst finalize.simps) auto
  next
    case True
    let ?types' = "if types ! j = TYPE_UNKNOWN then types[j := TYPE_TEXT] else types"
    have "finalize j ncols types ! i = finalize (j + 1) ncols ?types' ! i"
      using True by (subst finalize.simps) simp
    also have "\<dots> = (if j + 1 \<le> i \<and> i < ncols then settle (?types' ! i) else ?types' ! i)"
      using "1.IH"[OF True] "1.prems" by simp
    finally show ?thesis
      using True "1.prems" by (auto simp: nth_list_update settle_def)
  qed
qed

lemma main_types_length: "length (main_types (hdr # rows)) = header_ncols hdr"
  by (simp add: main_types_def Let_def finalize_length scan_rows_length)

lemma main_types_nth:
  assumes "i < header_ncols hdr"
  shows "main_types (hdr # rows) ! i =
         settle (foldl observe TYPE_UNKNOWN (column_values (header_ncols hdr) rows i))"
proof -
  let ?n = "header_ncols hdr"
  let ?ts = "scan_rows ?n (replicate ?n TYPE_UNKNOWN) rows"
  have "main_types (hdr # rows) = finalize 0 ?n ?ts"
    using assms by (simp add: main_types_def Let_def)
  moreover have "finalize 0 ?n ?ts ! i = settle (?ts ! i)"
    using assms by (simp add: finalize_nth scan_rows_length)
  moreover have "?ts ! i = foldl observe TYPE_UNKNOWN (column_values ?n rows i)"
    using assms by (simp add: scan_rows_nth)
  ultimately show ?thesis by simp
qed

lemma observe_UNKNOWN_iff: "observe t v = TYPE_UNKNOWN \<longleftrightarrow> t = TYPE_UNKNOWN \<and> cur v = NUL"
  by (cases t) (auto simp: observe_def)

lemma foldl_observe_UNKNOWN_iff:
  "foldl observe t vs = TYPE_UNKNOWN \<longleftrightarrow> t = TYPE_UNKNOWN \<and> (\<forall>v\<in>set vs. cur v = NUL)"
  by (induction vs arbitrary: t) (auto simp: observe_UNKNOWN_iff)

lemma observe_integer: "is_integer s \<Longrightarrow> observe TYPE_UNKNOWN s = TYPE_INTEGER"
  by (simp add: observe_def is_integer_nonempty)

lemma lit_42: "is_integer ''  42  ''"
  by (simp add: is_integer_def skip_sign_def isspace_def isdigit_def NUL_def)

lemma lit_3_14e10: "is_real ''3.14e10'' \<and> \<not> is_integer ''3.14e10''"
  by (simp add: is_real_def is_integer_def scan_exponent_def skip_sign_def isspace_def isdigit_def NUL_def)

lemma lit_3_dot: "is_real ''3.'' \<and> \<not> is_integer ''3.''"
  by (simp add: is_real_def is_integer_def scan_exponent_def skip_sign_def isspace_def isdigit_def NUL_def)

lemma lit_dot: "\<not> is_real ''.'' \<and> \<not> is_integer ''.''"
  by (simp add: is_real_def is_integer_def scan_exponent_def skip_sign_def isspace_def isdigit_def NUL_def)

lemma lit_1e: "\<not> is_real ''1e'' \<and> \<not> is_integer ''1e''"
  by (simp add: is_real_def is_integer_def scan_exponent_def skip_sign_def isspace_def isdigit_def NUL_def)

lemma lit_empty: "\<not> is_real [] \<and> \<not> is_integer []"
  by (simp add: is_real_def is_integer_def scan_exponent_def skip_sign_def isspace_def isdigit_def NUL_def)

text \<open>Claim C5. The classifiers on the boundary inputs: \<open>"  42  "\<close> is an integer
  literal; \<open>"3.14e10"\<close> is a real literal and not an integer literal; \<open>"3."\<close> is a
  real literal; \<open>"."\<close> and \<open>"1e"\<close> pass neither test, so that a column observing one
  of them becomes Text whatever its state was; the empty string leaves every state as it
  is, before either test is reached.\<close>

theorem C5_literal_boundaries:
  "is_integer ''  42  '' \<and> observe TYPE_UNKNOWN ''  42  '' = TYPE_INTEGER
   \<and> is_real ''3.14e10'' \<and> \<not> is_integer ''3.14e10'' \<and> observe TYPE_UNKNOWN ''3.14e10'' = TYPE_REAL
   \<and> is_real ''3.'' \<and> observe TYPE_UNKNOWN ''3.'' = TYPE_REAL
   \<and> \<not> is_integer ''.'' \<and> \<not> is_real ''.'' \<and> observe t ''.'' = TYPE_TEXT
   \<and> \<not> is_integer ''1e'' \<and> \<not> is_real ''1e'' \<and> observe t ''1e'' = TYPE_TEXT
   \<and> observe t [] = t"
  using lit_42 lit_3_14e10 lit_3_dot lit_dot lit_1e
  by (simp add: observe_def NUL_def)

lemma is_real_nonempty: "is_real s \<Longrightarrow> cur s \<noteq> NUL"
  unfolding is_real_def Let_def
  by (cases s) (auto split: prod.splits if_splits simp: isspace_def isdigit_def NUL_def skip_sign_def)

lemma observe_int_real_int:
  assumes "is_integer a" "is_real b" "\<not> is_integer b" "is_integer c"
  shows "foldl observe TYPE_UNKNOWN [a, b, c] = TYPE_REAL"
proof -
  have "observe TYPE_UNKNOWN a = TYPE_INTEGER"
    using assms(1) by (rule observe_integer)
  moreover have "observe TYPE_INTEGER b = TYPE_REAL"
    using assms(2,3) by (simp add: observe_def is_real_nonempty)
  moreover have "observe TYPE_REAL c = TYPE_REAL"
    using assms(4) by (simp add: observe_def)
  ultimately show ?thesis by simp
qed

lemma rank_scan_rows:
  "i < ncols \<Longrightarrow> ncols \<le> length types \<Longrightarrow>
   rank (types ! i) \<le> rank (scan_rows ncols types rows ! i)"
  by (simp add: scan_rows_nth rank_foldl_observe)

text \<open>Claim C2. The state of a column never moves backward in the order
  Unknown < Integer < Real < Text: not in one observation, not over any sequence of
  observations, and not in any column over any sequence of data lines. An integer
  literal, then a real literal that is not an integer literal (the evidence class of
  the transition table, since the integer test comes first), then an integer literal,
  leave an Unknown column in state Real.\<close>

theorem C2_type_state_monotone:
  "rank t \<le> rank (observe t v)
   \<and> rank t \<le> rank (foldl observe t vs)
   \<and> (i < ncols \<and> ncols \<le> length types \<longrightarrow>
        rank (types ! i) \<le> rank (scan_rows ncols types rows ! i))
   \<and> (is_integer a \<and> is_real b \<and> \<not> is_integer b \<and> is_integer c \<longrightarrow>
        foldl observe TYPE_UNKNOWN [a, b, c] = TYPE_REAL)"
proof (intro conjI impI)
  show "rank t \<le> rank (observe t v)"
    by (rule rank_observe)
  show "rank t \<le> rank (foldl observe t vs)"
    by (rule rank_foldl_observe)
  show "rank (types ! i) \<le> rank (scan_rows ncols types rows ! i)"
    if "i < ncols \<and> ncols \<le> length types"
    using that by (simp add: rank_scan_rows)
  show "foldl observe TYPE_UNKNOWN [a, b, c] = TYPE_REAL"
    if "is_integer a \<and> is_real b \<and> \<not> is_integer b \<and> is_integer c"
    using that by (intro observe_int_real_int) simp_all
qed

theorem C2_witness:
  "(0::nat) < 1 \<and> 1 \<le> length [TYPE_INTEGER]
   \<and> is_integer ''1'' \<and> is_real ''2.5'' \<and> \<not> is_integer ''2.5'' \<and> is_integer ''3''
   \<and> rank TYPE_INTEGER \<le> rank (observe TYPE_INTEGER ''2.5'')
   \<and> rank ([TYPE_INTEGER] ! 0) \<le> rank (scan_rows 1 [TYPE_INTEGER] [''2.5'', ''3''] ! 0)
   \<and> foldl observe TYPE_UNKNOWN [''1'', ''2.5'', ''3''] = TYPE_REAL"
proof -
  have h: "is_integer ''1'' \<and> is_real ''2.5'' \<and> \<not> is_integer ''2.5'' \<and> is_integer ''3''"
    by (simp add: is_real_def is_integer_def scan_exponent_def skip_sign_def isspace_def
        isdigit_def NUL_def)
  show ?thesis
    using h C2_type_state_monotone [of TYPE_INTEGER "''2.5''" "[]" 0 1 "[TYPE_INTEGER]"
        "[''2.5'', ''3'']" "''1''" "''2.5''" "''3''"]
    by simp
qed

text \<open>Claim C6. The final pass over the columns turns every Unknown state into Text and
  leaves Integer, Real and Text as they are; a column is still Unknown at that point
  exactly when every value it observed was empty.\<close>

theorem C6_finalize_unknown_to_text:
  "ncols \<le> length types \<Longrightarrow> i < ncols \<Longrightarrow>
     finalize 0 ncols types ! i = (if types ! i = TYPE_UNKNOWN then TYPE_TEXT else types ! i)
     \<and> length (finalize 0 ncols types) = length types
     \<and> (foldl observe TYPE_UNKNOWN vs = TYPE_UNKNOWN \<longleftrightarrow> (\<forall>v\<in>set vs. cur v = NUL))"
  by (simp add: finalize_nth finalize_length settle_def foldl_observe_UNKNOWN_iff)

theorem C6_witness:
  "(4::nat) \<le> length [TYPE_UNKNOWN, TYPE_INTEGER, TYPE_REAL, TYPE_TEXT] \<and> (0::nat) < 4
   \<and> finalize 0 4 [TYPE_UNKNOWN, TYPE_INTEGER, TYPE_REAL, TYPE_TEXT] ! 0 = TYPE_TEXT
   \<and> finalize 0 4 [TYPE_UNKNOWN, TYPE_INTEGER, TYPE_REAL, TYPE_TEXT]
       = [TYPE_TEXT, TYPE_INTEGER, TYPE_REAL, TYPE_TEXT]
   \<and> list_all (\<lambda>v. cur v = NUL) [[], []]
   \<and> foldl observe TYPE_UNKNOWN [[], []] = TYPE_UNKNOWN"
proof -
  have h: "(4::nat) \<le> length [TYPE_UNKNOWN, TYPE_INTEGER, TYPE_REAL, TYPE_TEXT]" "(0::nat) < 4"
    by simp_all
  have e: "finalize 0 4 [TYPE_UNKNOWN, TYPE_INTEGER, TYPE_REAL, TYPE_TEXT]
       = [TYPE_TEXT, TYPE_INTEGER, TYPE_REAL, TYPE_TEXT]"
    by code_simp
  show ?thesis
    using e C6_finalize_unknown_to_text [OF h, of "[[], []]"] by simp
qed

text \<open>Claim C7. Every string that passes the integer test passes the real test; as the
  integer test is applied first, such a value moves an Unknown column to Integer, the
  narrower type.\<close>

theorem C7_integer_literal_is_real_literal:
  "is_integer s \<Longrightarrow> is_real s \<and> observe TYPE_UNKNOWN s = TYPE_INTEGER"
  by (simp add: is_integer_imp_is_real observe_integer)

theorem C7_witness:
  "is_integer ''-42'' \<and> is_real ''-42'' \<and> observe TYPE_UNKNOWN ''-42'' = TYPE_INTEGER"
proof -
  have h: "is_integer ''-42''"
    by (simp add: is_integer_def skip_sign_def isspace_def isdigit_def NUL_def)
  show ?thesis
    using h C7_integer_literal_is_real_literal [OF h] by simp
qed

lemma single_integer_evidence:
  assumes "is_integer lit" "filter (\<lambda>v. v \<noteq> []) vs = [lit]"
  shows "foldl observe TYPE_UNKNOWN vs = TYPE_INTEGER"
proof -
  have "foldl observe TYPE_UNKNOWN vs = foldl observe TYPE_UNKNOWN [lit]"
    using assms(2) foldl_observe_filter [of TYPE_UNKNOWN vs] by simp
  then show ?thesis
    using assms(1) by (simp add: observe_integer)
qed

lemma main_single_integer:
  assumes "is_integer lit" "i < header_ncols hdr"
    "filter (\<lambda>v. v \<noteq> []) (column_values (header_ncols hdr) rows i) = [lit]"
  shows "main_types (hdr # rows) ! i = TYPE_INTEGER"
  using assms single_integer_evidence [OF assms(1,3)]
  by (simp add: main_types_nth settle_def)

text \<open>Claim C8. Observing the empty string changes no state. Hence a column whose
  non-empty values are one integer literal ends in Integer however many empty values
  come before or after it, as a bare sequence of observations and as a column of a
  file.\<close>

theorem C8_empty_value_is_identity:
  "observe s [] = s
   \<and> (is_integer lit \<and> filter (\<lambda>v. v \<noteq> []) vs = [lit] \<longrightarrow>
        foldl observe TYPE_UNKNOWN vs = TYPE_INTEGER)
   \<and> (is_integer lit \<and> i < header_ncols hdr
        \<and> filter (\<lambda>v. v \<noteq> []) (column_values (header_ncols hdr) rows i) = [lit] \<longrightarrow>
        main_types (hdr # rows) ! i = TYPE_INTEGER)"
proof (intro conjI impI)
  show "observe s [] = s"
    by (rule observe_empty)
  show "foldl observe TYPE_UNKNOWN vs = TYPE_INTEGER"
    if "is_integer lit \<and> filter (\<lambda>v. v \<noteq> []) vs = [lit]"
    using that by (intro single_integer_evidence) simp_all
  show "main_types (hdr # rows) ! i = TYPE_INTEGER"
    if "is_integer lit \<and> i < header_ncols hdr
        \<and> filter (\<lambda>v. v \<noteq> []) (column_values (header_ncols hdr) rows i) = [lit]"
    using that by (intro main_single_integer) simp_all
qed

text \<open>Claim C10. The type reported for column \<open>i\<close> depends only on the values observed
  at index \<open>i\<close> of the padded data rows: two files whose data rows agree there get the
  same type for column \<open>i\<close>, whatever their other columns and headers hold.\<close>

theorem C10_column_noninterference:
  assumes "i < header_ncols h1" and "i < header_ncols h2"
    and "column_values (header_ncols h1) rows1 i = column_values (header_ncols h2) rows2 i"
  shows "main_types (h1 # rows1) ! i = main_types (h2 # rows2) ! i"
  using assms by (simp add: main_types_nth)

lemma ex_ncols: "header_ncols ''n,m'' = 2"
  by code_simp

lemma ex_col: "column_values 2 ['',x'', ''7,y'', '',''] 0 = [[], ''7'', []]"
  by code_simp

theorem C8_witness:
  "is_integer ''7'' \<and> filter (\<lambda>v. v \<noteq> []) [[], ''7'', [], []] = [''7'']
   \<and> (0::nat) < header_ncols ''n,m''
   \<and> filter (\<lambda>v. v \<noteq> []) (column_values (header_ncols ''n,m'') ['',x'', ''7,y'', '',''] 0) = [''7'']
   \<and> observe TYPE_REAL [] = TYPE_REAL
   \<and> foldl observe TYPE_UNKNOWN [[], ''7'', [], []] = TYPE_INTEGER
   \<and> main_types [''n,m'', '',x'', ''7,y'', '',''] ! 0 = TYPE_INTEGER"
proof -
  have h1: "is_integer ''7''"
    by (simp add: is_integer_def skip_sign_def isspace_def isdigit_def NUL_def)
  have h2: "filter (\<lambda>v. v \<noteq> []) [[], ''7'', [], []] = [''7'']"
    by simp
  have h3: "(0::nat) < header_ncols ''n,m''"
    by (simp add: ex_ncols)
  have h4: "filter (\<lambda>v. v \<noteq> []) (column_values (header_ncols ''n,m'') ['',x'', ''7,y'', '',''] 0)
      = [''7'']"
    by (simp add: ex_ncols ex_col)
  show ?thesis
    using h1 h2 h3 h4
      C8_empty_value_is_identity [of TYPE_REAL "''7''" "[[], ''7'', [], []]" 0 "''n,m''"
        "['',x'', ''7,y'', '','']"]
    by simp
qed

lemma ex_ncols3: "header_ncols ''p,q,r'' = 3"
  by code_simp

lemma ex_col3: "column_values 3 [''7,8,9'', ''z''] 0 = [''7'', ''z'']"
  by code_simp

lemma ex_col2: "column_values 2 [''7,y'', ''z,1''] 0 = [''7'', ''z'']"
  by code_simp

theorem C10_witness:
  "(0::nat) < header_ncols ''n,m'' \<and> (0::nat) < header_ncols ''p,q,r''
   \<and> column_values (header_ncols ''n,m'') [''7,y'', ''z,1''] 0
       = column_values (header_ncols ''p,q,r'') [''7,8,9'', ''z''] 0
   \<and> main_types [''n,m'', ''7,y'', ''z,1''] ! 0 = main_types [''p,q,r'', ''7,8,9'', ''z''] ! 0"
proof -
  have h1: "(0::nat) < header_ncols ''n,m''"
    by (simp add: ex_ncols)
  have h2: "(0::nat) < header_ncols ''p,q,r''"
    by (simp add: ex_ncols3)
  have h3: "column_values (header_ncols ''n,m'') [''7,y'', ''z,1''] 0
       = column_values (header_ncols ''p,q,r'') [''7,8,9'', ''z''] 0"
    by (simp add: ex_ncols ex_ncols3 ex_col2 ex_col3)
  show ?thesis
    using h1 h2 h3 C10_column_noninterference [OF h1 h2 h3] by simp
qed


subsection \<open>The record splitter\<close>

lemma split_on_no_delim:
  assumes "d \<notin> set s"
  shows "split_on d s = [s]"
proof -
  have dw: "dropWhile (\<lambda>c. c \<noteq> d) s = []"
    using assms by auto
  have tw: "takeWhile (\<lambda>c. c \<noteq> d) s = s"
    using assms by auto
  show ?thesis
    by (subst split_on.simps) (simp only: dw tw list.case)
qed

lemma split_on_delim:
  "dropWhile (\<lambda>c. c \<noteq> d) s = x # r \<Longrightarrow> split_on d s = takeWhile (\<lambda>c. c \<noteq> d) s # split_on d r"
  by (subst split_on.simps) simp

lemma split_on_not_Nil: "split_on d s \<noteq> []"
  by (subst split_on.simps) (simp split: list.splits)

lemma skip_to_delim_eq:
  "NUL \<notin> set (drop p buf) \<Longrightarrow>
   skip_to_delim buf d p = p + length (takeWhile (\<lambda>c. c \<noteq> d) (drop p buf))"
proof (induction buf d p rule: skip_to_delim.induct)
  case (1 buf d p)
  show ?case
  proof (cases "p < length buf")
    case False
    then show ?thesis
      by (subst skip_to_delim.simps) (simp add: peek_def)
  next
    case True
    then have dr: "drop p buf = buf ! p # drop (p + 1) buf"
      by (simp add: Cons_nth_drop_Suc)
    with "1.prems" have nz: "buf ! p \<noteq> NUL" and rest: "NUL \<notin> set (drop (p + 1) buf)"
      by auto
    show ?thesis
    proof (cases "buf ! p = d")
      case True
      then show ?thesis
        using \<open>p < length buf\<close> dr by (subst skip_to_delim.simps) (simp add: peek_def)
    next
      case False
      then have "skip_to_delim buf d p = skip_to_delim buf d (p + 1)"
        using \<open>p < length buf\<close> nz by (subst skip_to_delim.simps) (simp add: peek_def)
      also have "\<dots> = (p + 1) + length (takeWhile (\<lambda>c. c \<noteq> d) (drop (p + 1) buf))"
        using "1.IH" \<open>p < length buf\<close> nz False rest by (simp add: peek_def)
      finally show ?thesis
        using dr False by simp
    qed
  qed
qed

lemma cstr_at_stable:
  assumes "c \<le> j" "j < p" "p \<le> length buf" "buf ! j = NUL"
    and "take p buf' = take p buf"
  shows "cstr_at buf' c = cstr_at buf c"
proof -
  have key: "takeWhile (\<lambda>c. c \<noteq> NUL) (drop c b) = takeWhile (\<lambda>c. c \<noteq> NUL) (drop c (take p buf))"
    if "take p b = take p buf" for b
  proof -
    have "drop c b = drop c (take p b @ drop p b)" by simp
    also have "\<dots> = drop c (take p buf) @ drop p b"
      using assms(1,2,3) that by simp
    finally have e: "drop c b = drop c (take p buf) @ drop p b" .
    have "NUL \<in> set (drop c (take p buf))"
    proof -
      have "drop c (take p buf) ! (j - c) = NUL"
        using assms(1-4) by simp
      moreover have "j - c < length (drop c (take p buf))"
        using assms(1-3) by simp
      ultimately show ?thesis by (metis nth_mem)
    qed
    then show ?thesis
      unfolding e by (intro takeWhile_append1[where x = NUL]) simp_all
  qed
  show ?thesis
    unfolding cstr_at_def using key[OF assms(5)] key[of buf] by simp
qed

lemma split_loop_stop:
  "peek buf p = NUL \<or> max_cells \<le> length cells \<Longrightarrow>
   split_loop buf max_cells d p cells = (buf, cells)"
  by (subst split_loop.simps) auto

lemma split_loop_bare:
  assumes "peek buf p \<noteq> NUL" "length cells < max_cells" "peek buf p \<noteq> DQUOTE"
  shows "split_loop buf max_cells d p cells =
     (let q = skip_to_delim buf d p in
      if peek buf q = d then split_loop (buf[q := NUL]) max_cells d (q + 1) (cells @ [p])
      else split_loop buf max_cells d q (cells @ [p]))"
  using assms by (subst split_loop.simps) (simp add: Let_def)

lemma drop_trailing_empty_Cons:
  "fs \<noteq> [] \<Longrightarrow> drop_trailing_empty (f # fs) = f # drop_trailing_empty fs"
  by (simp add: drop_trailing_empty_def)

lemma bare_fields:
  assumes "d \<noteq> NUL"
  shows "p \<le> length buf \<Longrightarrow> NUL \<notin> set (drop p buf) \<Longrightarrow> DQUOTE \<notin> set (drop p buf) \<Longrightarrow>
    \<exists>buf' new. split_loop buf max_cells d p cells = (buf', cells @ new)
      \<and> length buf' = length buf \<and> take p buf' = take p buf
      \<and> map (cstr_at buf') new =
          take (max_cells - length cells) (drop_trailing_empty (split_on d (drop p buf)))"
proof (induction "length buf - p" arbitrary: buf p cells rule: less_induct)
  case less
  let ?rest = "drop p buf"
  let ?m = "max_cells - length cells"
  show ?case
  proof (cases "?rest = [] \<or> max_cells \<le> length cells")
    case True
    then have "peek buf p = NUL \<or> max_cells \<le> length cells"
      by (auto simp: peek_def)
    then have "split_loop buf max_cells d p cells = (buf, cells @ [])"
      by (simp add: split_loop_stop)
    moreover have "take ?m (drop_trailing_empty (split_on d ?rest)) = []"
    proof (cases "max_cells \<le> length cells")
      case True
      then show ?thesis by simp
    next
      case False
      with \<open>?rest = [] \<or> max_cells \<le> length cells\<close> have "?rest = []" by simp
      then have "split_on d ?rest = [[]]"
        by (simp add: split_on_no_delim)
      then show ?thesis by (simp add: drop_trailing_empty_def)
    qed
    ultimately show ?thesis by simp
  next
    case False
    then have p: "p < length buf" and room: "length cells < max_cells"
      by auto
    have dr: "?rest = buf ! p # drop (p + 1) buf"
      using p by (simp add: Cons_nth_drop_Suc)
    have pk: "peek buf p \<noteq> NUL" "peek buf p \<noteq> DQUOTE"
      using p dr less.prems(2,3) by (auto simp: peek_def)
    let ?tw = "takeWhile (\<lambda>c. c \<noteq> d) ?rest"
    let ?q = "p + length ?tw"
    have q: "skip_to_delim buf d p = ?q"
      using less.prems(2) by (rule skip_to_delim_eq)
    have step: "split_loop buf max_cells d p cells =
       (if peek buf ?q = d then split_loop (buf[?q := NUL]) max_cells d (?q + 1) (cells @ [p])
        else split_loop buf max_cells d ?q (cells @ [p]))"
      using split_loop_bare [OF pk(1) room pk(2), of d] q by (simp add: Let_def)
    have tw_nul: "NUL \<notin> set ?tw"
      using less.prems(2) by (auto dest: set_takeWhileD)
    show ?thesis
    proof (cases "dropWhile (\<lambda>c. c \<noteq> d) ?rest")
      case Nil
      then have tw: "?tw = ?rest" and nod: "d \<notin> set ?rest"
        by auto
      have "length ?tw = length ?rest"
        using tw by (rule arg_cong)
      then have qe: "?q = length buf"
        using less.prems(1) by simp
      have "peek buf ?q = NUL"
        unfolding qe by (simp add: peek_def)
      then have "split_loop buf max_cells d p cells = (buf, cells @ [p])"
        using step assms by (simp add: split_loop_stop)
      moreover have "cstr_at buf p = ?rest"
        using less.prems(2) by (auto simp: cstr_at_def)
      moreover have "take ?m (drop_trailing_empty (split_on d ?rest)) = [?rest]"
      proof -
        have "drop_trailing_empty (split_on d ?rest) = [?rest]"
          using nod dr by (simp add: split_on_no_delim drop_trailing_empty_def)
        moreover from room obtain k where "?m = Suc k"
          by (cases ?m) auto
        ultimately show ?thesis by simp
      qed
      ultimately show ?thesis by simp
    next
      case (Cons x r)
      have x: "x = d"
        using hd_dropWhile [of "\<lambda>c. c \<noteq> d" ?rest] Cons by simp
      have split: "?rest = ?tw @ d # r"
        using takeWhile_dropWhile_id [of "\<lambda>c. c \<noteq> d" ?rest] Cons x by simp
      have qlt: "?q < length buf"
      proof -
        have "length ?rest = length ?tw + Suc (length r)"
          by (subst split) simp
        then show ?thesis using less.prems(1) by simp
      qed
      have atq: "buf ! ?q = d"
      proof -
        have "buf ! ?q = ?rest ! length ?tw"
          using qlt by simp
        also have "\<dots> = d"
          by (subst split) simp
        finally show ?thesis .
      qed
      have r: "drop (?q + 1) buf = r"
      proof -
        have "drop (?q + 1) buf = drop (length ?tw + 1) ?rest"
          by (simp add: add.commute add.left_commute)
        also have "\<dots> = r"
          by (subst split) simp
        finally show ?thesis .
      qed
      let ?buf1 = "buf[?q := NUL]"
      have r1: "drop (?q + 1) ?buf1 = r"
        using r by simp
      have nul1: "NUL \<notin> set (drop (?q + 1) ?buf1)" and dq1: "DQUOTE \<notin> set (drop (?q + 1) ?buf1)"
        using less.prems(2,3) split r1 by (metis Un_iff list.set_intros(2) set_append)+
      have "length ?buf1 - (?q + 1) < length buf - p"
        using qlt by simp
      moreover have "?q + 1 \<le> length ?buf1"
        using qlt by simp
      ultimately obtain buf' new where
        res: "split_loop ?buf1 max_cells d (?q + 1) (cells @ [p]) = (buf', (cells @ [p]) @ new)"
        and len: "length buf' = length ?buf1"
        and pre: "take (?q + 1) buf' = take (?q + 1) ?buf1"
        and flds: "map (cstr_at buf') new =
          take (max_cells - length (cells @ [p]))
            (drop_trailing_empty (split_on d (drop (?q + 1) ?buf1)))"
        using less.hyps [of ?buf1 "?q + 1" "cells @ [p]"] nul1 dq1 by blast
      have "split_loop buf max_cells d p cells = (buf', cells @ (p # new))"
        using step atq qlt res by (simp add: peek_def)
      moreover have "length buf' = length buf"
        using len by simp
      moreover have "take p buf' = take p buf"
      proof -
        have "take p buf' = take p (take (?q + 1) buf')" by (simp add: min_def)
        also have "\<dots> = take p (take (?q + 1) ?buf1)" by (simp only: pre)
        also have "\<dots> = take p buf" by (simp add: min_def)
        finally show ?thesis .
      qed
      moreover have "map (cstr_at buf') (p # new) =
          take ?m (drop_trailing_empty (split_on d ?rest))"
      proof -
        have "cstr_at buf' p = cstr_at ?buf1 p"
        proof (rule cstr_at_stable [where j = ?q and p = "?q + 1"])
          show "p \<le> ?q" by simp
          show "?q < ?q + 1" by simp
          show "?q + 1 \<le> length ?buf1" using qlt by simp
          show "?buf1 ! ?q = NUL" using qlt by simp
          show "take (?q + 1) buf' = take (?q + 1) ?buf1" by (rule pre)
        qed
        also have "\<dots> = ?tw"
        proof -
          have "drop p ?buf1 = (drop p buf)[length ?tw := NUL]"
            by (simp add: drop_update_swap)
          also have "\<dots> = ?tw @ NUL # r"
            by (subst split) (simp add: list_update_append)
          finally show ?thesis
            using tw_nul by (auto simp: cstr_at_def takeWhile_tail)
        qed
        finally have first: "cstr_at buf' p = ?tw" .
        have "split_on d ?rest = ?tw # split_on d r"
          using Cons by (rule split_on_delim)
        then have "drop_trailing_empty (split_on d ?rest) = ?tw # drop_trailing_empty (split_on d r)"
          by (simp add: drop_trailing_empty_Cons split_on_not_Nil)
        moreover from room obtain k where k: "?m = Suc k"
          by (cases ?m) auto
        moreover have "max_cells - length (cells @ [p]) = k"
          using k by simp
        ultimately show ?thesis
          using first flds r1 by simp
      qed
      ultimately show ?thesis by blast
    qed
  qed
qed

lemma split_loop_count: "length cells \<le> length (snd (split_loop buf max_cells d p cells))"
proof (induction buf max_cells d p cells rule: split_loop.induct)
  case (1 buf max_cells d p cells)
  show ?case
  proof (cases "peek buf p \<noteq> NUL \<and> length cells < max_cells")
    case False
    then show ?thesis by (subst split_loop.simps) auto
  next
    case True
    show ?thesis
    proof (cases "peek buf p = DQUOTE")
      case dq: True
      obtain b q w where ql: "quoted_loop buf (p + 1) p = (b, q, w)"
        by (cases "quoted_loop buf (p + 1) p") auto
      let ?b = "b[w := NUL]"
      let ?q = "skip_to_delim ?b d q"
      let ?q' = "if peek ?b ?q = d then ?q + 1 else ?q"
      have "split_loop buf max_cells d p cells = split_loop ?b max_cells d ?q' (cells @ [p + 1])"
        using True dq ql by (subst split_loop.simps) (simp add: Let_def)
      moreover have "length (cells @ [p + 1]) \<le> length (snd (split_loop ?b max_cells d ?q' (cells @ [p + 1])))"
        using "1.IH"(1) [OF True refl dq ql [symmetric] refl refl refl refl refl] by simp
      ultimately show ?thesis by simp
    next
      case nq: False
      let ?q = "skip_to_delim buf d p"
      show ?thesis
      proof (cases "peek buf ?q = d")
        case t: True
        have "split_loop buf max_cells d p cells = split_loop (buf[?q := NUL]) max_cells d (?q + 1) (cells @ [p])"
          using True nq t by (subst split_loop.simps) (simp add: Let_def)
        moreover have "length (cells @ [p]) \<le> length (snd (split_loop (buf[?q := NUL]) max_cells d (?q + 1) (cells @ [p])))"
          using "1.IH"(2) [OF True refl nq refl t] by simp
        ultimately show ?thesis by simp
      next
        case f: False
        have "split_loop buf max_cells d p cells = split_loop buf max_cells d ?q (cells @ [p])"
          using True nq f by (subst split_loop.simps) (simp add: Let_def)
        moreover have "length (cells @ [p]) \<le> length (snd (split_loop buf max_cells d ?q (cells @ [p])))"
          using "1.IH"(3) [OF True refl nq refl f] by simp
        ultimately show ?thesis by simp
      qed
    qed
  qed
qed

lemma split_loop_step:
  assumes "peek buf p \<noteq> NUL" "length cells < max_cells"
  shows "\<exists>buf' p' c. split_loop buf max_cells d p cells = split_loop buf' max_cells d p' (cells @ [c])"
proof (cases "peek buf p = DQUOTE")
  case True
  obtain b q w where "quoted_loop buf (p + 1) p = (b, q, w)"
    by (cases "quoted_loop buf (p + 1) p") auto
  then show ?thesis
    using assms True by (subst split_loop.simps) (simp add: Let_def, blast)
next
  case False
  then show ?thesis
    using assms by (subst split_loop.simps) (simp add: Let_def, blast)
qed

lemma split_fields_length:
  "length (split_fields line max_cells d) = length (snd (split_csv_line line max_cells d))"
  by (simp add: split_fields_def split: prod.splits)

lemma split_fields_empty: "split_fields [] max_cells d = []"
  by (simp add: split_fields_def split_csv_line_def split_loop_stop peek_def)

lemma split_fields_nonempty:
  assumes "cur line \<noteq> NUL" "1 \<le> max_cells"
  shows "1 \<le> length (split_fields line max_cells d)"
proof -
  have "peek line 0 \<noteq> NUL"
    using assms(1) by (cases line) (simp_all add: peek_def)
  then obtain buf' p' c where
    "split_loop line max_cells d 0 [] = split_loop buf' max_cells d p' ([] @ [c])"
    using split_loop_step [of line 0 "[]" max_cells d] assms(2) by auto
  then show ?thesis
    using split_loop_count [of "[c]" buf' max_cells d p']
    by (simp add: split_fields_length split_csv_line_def)
qed

lemma split_fields_bare:
  assumes "d \<noteq> NUL" "NUL \<notin> set line" "DQUOTE \<notin> set line"
  shows "split_fields line max_cells d = take max_cells (drop_trailing_empty (split_on d line))"
proof -
  obtain buf' new where "split_loop line max_cells d 0 [] = (buf', [] @ new)"
    and "map (cstr_at buf') new =
      take (max_cells - length ([] :: nat list)) (drop_trailing_empty (split_on d (drop 0 line)))"
    using bare_fields [OF assms(1), of 0 line max_cells "[]"] assms(2,3) by auto
  then show ?thesis
    by (simp add: split_fields_def split_csv_line_def)
qed

lemma split_on_snoc_delim: "split_on d (s @ [d]) = split_on d s @ [[]]"
proof (induction d s rule: split_on.induct)
  case (1 d s)
  show ?case
  proof (cases "dropWhile (\<lambda>c. c \<noteq> d) s")
    case Nil
    then have all: "\<forall>c\<in>set s. c \<noteq> d" by simp
    then have nod: "d \<notin> set s" by auto
    have tw: "takeWhile (\<lambda>c. c \<noteq> d) (s @ [d]) = s"
      and dw: "dropWhile (\<lambda>c. c \<noteq> d) (s @ [d]) = [d]"
      using all by (simp_all add: takeWhile_append2 dropWhile_append2)
    have "split_on d (s @ [d]) = s # split_on d []"
      using split_on_delim [OF dw] tw by simp
    then show ?thesis
      using nod by (simp add: split_on_no_delim)
  next
    case (Cons x r)
    define t where "t = takeWhile (\<lambda>c. c \<noteq> d) s"
    have x: "x = d"
      using hd_dropWhile [of "\<lambda>c. c \<noteq> d" s] Cons by simp
    have s: "s = t @ d # r"
      using takeWhile_dropWhile_id [of "\<lambda>c. c \<noteq> d" s] Cons x by (simp add: t_def)
    have tall: "\<forall>c\<in>set t. c \<noteq> d"
      by (auto simp: t_def dest: set_takeWhileD)
    have tw: "takeWhile (\<lambda>c. c \<noteq> d) (s @ [d]) = t"
      unfolding s using tall by simp
    have dw: "dropWhile (\<lambda>c. c \<noteq> d) (s @ [d]) = d # (r @ [d])"
      unfolding s using tall by simp
    have "split_on d (s @ [d]) = t # split_on d (r @ [d])"
      using split_on_delim [OF dw] tw by simp
    also have "\<dots> = t # (split_on d r @ [[]])"
      using "1.IH" [OF Cons] by simp
    also have "\<dots> = split_on d s @ [[]]"
      using split_on_delim [OF Cons] by (simp add: t_def)
    finally show ?thesis .
  qed
qed

lemma last_split_on: "last (split_on d s) = [] \<longleftrightarrow> s = [] \<or> last s = d"
proof (induction d s rule: split_on.induct)
  case (1 d s)
  show ?case
  proof (cases "dropWhile (\<lambda>c. c \<noteq> d) s")
    case Nil
    then have nod: "d \<notin> set s" by auto
    then have "s \<noteq> [] \<Longrightarrow> last s \<noteq> d"
      using last_in_set by metis
    then show ?thesis
      using nod by (auto simp: split_on_no_delim)
  next
    case (Cons x r)
    have x: "x = d"
      using hd_dropWhile [of "\<lambda>c. c \<noteq> d" s] Cons by simp
    have s: "s = takeWhile (\<lambda>c. c \<noteq> d) s @ d # r"
      using takeWhile_dropWhile_id [of "\<lambda>c. c \<noteq> d" s] Cons x by simp
    have "last (split_on d s) = last (split_on d r)"
      using split_on_delim [OF Cons] by (simp add: split_on_not_Nil)
    moreover have "s \<noteq> []" using s by auto
    moreover have "last s = (if r = [] then d else last r)"
      by (subst s) simp
    ultimately show ?thesis
      using "1.IH" [OF Cons] by auto
  qed
qed

lemma trailing_delim_same_fields:
  assumes "s \<noteq> []" "last s \<noteq> d"
  shows "drop_trailing_empty (split_on d (s @ [d])) = drop_trailing_empty (split_on d s)"
proof -
  have "last (split_on d s) \<noteq> []"
    using assms by (simp add: last_split_on)
  then show ?thesis
    by (simp add: split_on_snoc_delim drop_trailing_empty_def split_on_not_Nil)
qed

text \<open>Claim C3, as amended. For a line without quote characters and a non-NUL delimiter,
  and a field limit no smaller than the number of fields, the splitter returns the
  substrings obtained by splitting the line on every occurrence of the delimiter, except
  that an empty last substring is not returned: the empty line has no field, and a
  trailing delimiter contributes no final empty field.\<close>

theorem C3_bare_line_fields:
  assumes "d \<noteq> NUL" and "NUL \<notin> set line" and "DQUOTE \<notin> set line"
    and "length (drop_trailing_empty (split_on d line)) \<le> max_cells"
  shows "split_fields line max_cells d = drop_trailing_empty (split_on d line)"
  using assms by (simp add: split_fields_bare)

theorem C3_witness:
  "CHR '','' \<noteq> NUL \<and> NUL \<notin> set ''a,,b,'' \<and> DQUOTE \<notin> set ''a,,b,''
   \<and> drop_trailing_empty (split_on (CHR '','') ''a,,b,'') = [''a'', [], ''b'']
   \<and> length (drop_trailing_empty (split_on (CHR '','') ''a,,b,'')) \<le> MAX_COLS
   \<and> split_fields ''a,,b,'' MAX_COLS (CHR '','') = [''a'', [], ''b'']"
proof -
  have h1: "CHR '','' \<noteq> NUL" by (simp add: NUL_def)
  have h2: "NUL \<notin> set ''a,,b,''" by (simp add: NUL_def)
  have h3: "DQUOTE \<notin> set ''a,,b,''" by (simp add: DQUOTE_def)
  have e: "drop_trailing_empty (split_on (CHR '','') ''a,,b,'') = [''a'', [], ''b'']"
    by code_simp
  have h4: "length (drop_trailing_empty (split_on (CHR '','') ''a,,b,'')) \<le> MAX_COLS"
    by (simp add: e MAX_COLS_def)
  show ?thesis
    using h1 h2 h3 h4 e C3_bare_line_fields [OF h1 h2 h3 h4] by simp
qed

text \<open>Claim C3 as stated fails: on the line \<open>a,\<close> the splitter returns the one field
  \<open>a\<close>, while splitting on the delimiter gives \<open>a\<close> and the empty string.\<close>

theorem C3_counterexample:
  "split_fields ''a,'' MAX_COLS (CHR '','') = [''a'']
   \<and> split_on (CHR '','') ''a,'' = [''a'', []]
   \<and> split_fields ''a,'' MAX_COLS (CHR '','') \<noteq> split_on (CHR '','') ''a,''"
proof -
  have a: "split_fields ''a,'' MAX_COLS (CHR '','') = [''a'']" by code_simp
  have b: "split_on (CHR '','') ''a,'' = [''a'', []]" by code_simp
  show ?thesis by (simp add: a b)
qed

text \<open>Claim C9, as amended. For a non-NUL delimiter and a field limit of at least one:
  the empty line has no field; a non-empty line has at least one field; and a line
  without quote characters that ends in the delimiter has the same fields, hence as
  many, as the line without that last delimiter, provided that what remains is not
  empty and does not itself end in the delimiter.\<close>

theorem C9_no_field_after_final_delimiter:
  assumes "d \<noteq> NUL" and "1 \<le> max_cells"
  shows "split_fields [] max_cells d = []
    \<and> (cur line \<noteq> NUL \<longrightarrow> 1 \<le> length (split_fields line max_cells d))
    \<and> (NUL \<notin> set s \<and> DQUOTE \<notin> set (s @ [d]) \<and> s \<noteq> [] \<and> last s \<noteq> d \<longrightarrow>
         split_fields (s @ [d]) max_cells d = split_fields s max_cells d
         \<and> length (split_fields (s @ [d]) max_cells d) = length (split_fields s max_cells d))"
proof (intro conjI impI)
  show "split_fields [] max_cells d = []"
    by (rule split_fields_empty)
  show "1 \<le> length (split_fields line max_cells d)" if "cur line \<noteq> NUL"
    using that assms(2) by (rule split_fields_nonempty)
  assume h: "NUL \<notin> set s \<and> DQUOTE \<notin> set (s @ [d]) \<and> s \<noteq> [] \<and> last s \<noteq> d"
  then have "split_fields (s @ [d]) max_cells d =
      take max_cells (drop_trailing_empty (split_on d (s @ [d])))"
    using assms(1) by (intro split_fields_bare) auto
  moreover have "split_fields s max_cells d = take max_cells (drop_trailing_empty (split_on d s))"
    using h assms(1) by (intro split_fields_bare) auto
  ultimately show eq: "split_fields (s @ [d]) max_cells d = split_fields s max_cells d"
    using h by (simp add: trailing_delim_same_fields)
  then show "length (split_fields (s @ [d]) max_cells d) = length (split_fields s max_cells d)"
    by simp
qed

theorem C9_witness:
  "CHR '','' \<noteq> NUL \<and> (1::nat) \<le> 1 \<and> cur ''x,y'' \<noteq> NUL
   \<and> NUL \<notin> set ''a'' \<and> DQUOTE \<notin> set (''a'' @ [CHR '','']) \<and> ''a'' \<noteq> [] \<and> last ''a'' \<noteq> CHR '',''
   \<and> split_fields [] 1 (CHR '','') = []
   \<and> 1 \<le> length (split_fields ''x,y'' 1 (CHR '',''))
   \<and> split_fields (''a'' @ [CHR '','']) 1 (CHR '','') = split_fields ''a'' 1 (CHR '','')
   \<and> split_fields ''a'' 1 (CHR '','') = [''a'']"
proof -
  have h1: "CHR '','' \<noteq> NUL" by (simp add: NUL_def)
  have h2: "(1::nat) \<le> 1" by simp
  have h3: "cur ''x,y'' \<noteq> NUL" by (simp add: NUL_def)
  have h4: "NUL \<notin> set ''a'' \<and> DQUOTE \<notin> set (''a'' @ [CHR '','']) \<and> ''a'' \<noteq> [] \<and> last ''a'' \<noteq> CHR '',''"
    by (simp add: NUL_def DQUOTE_def)
  have e: "split_fields ''a'' 1 (CHR '','') = [''a'']" by code_simp
  show ?thesis
    using h1 h3 h4 e C9_no_field_after_final_delimiter [OF h1 h2, of "''x,y''" "''a''"] by simp
qed

text \<open>Claim C9 as stated fails: the line that is one delimiter has one (empty) field,
  the empty line that remains without it has none.\<close>

theorem C9_counterexample:
  "split_fields '','' 1 (CHR '','') = [[]]
   \<and> split_fields (butlast '','') 1 (CHR '','') = []
   \<and> length (split_fields '','' 1 (CHR '','')) \<noteq> length (split_fields (butlast '','') 1 (CHR '',''))"
proof -
  have a: "split_fields '','' 1 (CHR '','') = [[]]" by code_simp
  have b: "split_fields (butlast '','') 1 (CHR '','') = []" by code_simp
  show ?thesis by (simp only: a b) simp
qed

text \<open>Claim C1. On the line \<open>"a""b",c\<close> the splitter returns two fields, and the doubled
  quote has become one quote character, but the first field is \<open>"b\<close> and not \<open>a"b\<close>:
  the unescaped content is written from the position of the opening quote, and the cell
  pointer is set one byte after it.\<close>

theorem C1_quoted_field_loses_first_byte:
  "split_fields ([DQUOTE] @ ''a'' @ [DQUOTE, DQUOTE] @ ''b'' @ [DQUOTE] @ '',c'') MAX_COLS (CHR '','')
     = [[DQUOTE] @ ''b'', ''c'']"
  by code_simp

text \<open>Claim C4. On the line \<open>"abc,def\<close>, whose quote is never closed, the splitter
  returns one field and raises nothing, but the field is \<open>bc,def\<close> and not \<open>abc,def\<close>,
  for the same reason.\<close>

theorem C4_unterminated_quote_loses_first_byte:
  "split_fields ([DQUOTE] @ ''abc,def'') MAX_COLS (CHR '','') = [''bc,def'']"
  by code_simp

end
